theory Spec2Isabelle
  imports Main "HOL-Library.Multiset" "HOL-Library.Sublist"
begin

section \<open>Go slices\<close>

text \<open>
  A Go slice of type \<^verbatim>\<open>[]int\<close> is either \<^verbatim>\<open>nil\<close> or holds a sequence of elements.
  \<open>None\<close> is the nil slice. \<^verbatim>\<open>len\<close> of a nil slice is 0, ranging over it runs no
  iteration, and \<^verbatim>\<open>append\<close> to it yields a non-nil slice.
\<close>

type_synonym 'a slice = "'a list option"

definition elems :: "'a slice \<Rightarrow> 'a list" where
  "elems sl = (case sl of None \<Rightarrow> [] | Some xs \<Rightarrow> xs)"

definition len :: "'a slice \<Rightarrow> nat" where
  "len sl = length (elems sl)"

definition append_slice :: "'a slice \<Rightarrow> 'a \<Rightarrow> 'a slice" where
  "append_slice sl x = Some (elems sl @ [x])"

section \<open>Constants of scan.go\<close>

definition wellKnownPorts :: int where
  "wellKnownPorts = 1024"

definition allPorts :: int where
  "allPorts = 65535"

text \<open>\<^verbatim>\<open>time.Second\<close> is a \<^verbatim>\<open>time.Duration\<close>, a count of nanoseconds.\<close>

definition Second :: int where
  "Second = 1000000000"

definition timeout :: int where
  "timeout = 3 * Second"

section \<open>portsToScan\<close>

text \<open>
  The loop \<^verbatim>\<open>for port := 1; port < max; port++ { ports = append(ports, port) }\<close>,
  started from the nil slice \<^verbatim>\<open>var ports []int\<close>. The bound is at most 65535, so the
  64-bit counter never wraps and \<open>int\<close> models it.
\<close>

function portsLoop :: "int \<Rightarrow> int \<Rightarrow> int slice \<Rightarrow> int slice" where
  "portsLoop mx port ports =
     (if port < mx then portsLoop mx (port + 1) (append_slice ports port) else ports)"
  by pat_completeness auto
termination
  by (relation "measure (\<lambda>(mx, port, ports). nat (mx - port))") auto

definition portsToScan :: "bool \<Rightarrow> int slice" where
  "portsToScan shouldScanAll =
     (let mx = (if shouldScanAll then allPorts else wellKnownPorts)
      in portsLoop mx 1 None)"

section \<open>The scanner\<close>

text \<open>
  The struct embeds a \<^verbatim>\<open>sync.Mutex\<close>; its state is one bit, \<open>True\<close> while held.
\<close>

record scanner =
  Mutex :: bool
  host :: string
  openPorts :: "int slice"
  scanAll :: bool

text \<open>
  An error built by \<^verbatim>\<open>xerrors.Errorf\<close>: the format string and its arguments.
\<close>

datatype error = Errorf string "string list"

text \<open>
  \<^verbatim>\<open>net.ParseIP\<close> belongs to the Go standard library; it is a parameter. It returns
  nil (\<open>None\<close>) when the text is not an IP address literal.
\<close>

definition newScanner :: "(string \<Rightarrow> 'ip option) \<Rightarrow> string \<Rightarrow> bool \<Rightarrow> error + scanner" where
  "newScanner ParseIP h all =
     (if ParseIP h = None then Inl (Errorf ''%q is an invalid ip address'' [h])
      else Inr \<lparr>Mutex = False, host = h, openPorts = None, scanAll = all\<rparr>)"

subsection \<open>add\<close>

text \<open>
  \<^verbatim>\<open>Lock\<close> blocks while the mutex is held; \<^verbatim>\<open>Unlock\<close> of a mutex that is not held is
  a fatal run-time error.
\<close>

datatype fault = Blocked | UnlockOfUnlocked

definition Lock :: "scanner \<Rightarrow> fault + scanner" where
  "Lock s = (if Mutex s then Inl Blocked else Inr (s\<lparr>Mutex := True\<rparr>))"

definition Unlock :: "scanner \<Rightarrow> fault + scanner" where
  "Unlock s = (if Mutex s then Inr (s\<lparr>Mutex := False\<rparr>) else Inl UnlockOfUnlocked)"

definition add :: "int \<Rightarrow> scanner \<Rightarrow> fault + scanner" where
  "add port s =
     (case Lock s of
        Inl f \<Rightarrow> Inl f
      | Inr s1 \<Rightarrow> Unlock (s1\<lparr>openPorts := append_slice (openPorts s1) port\<rparr>))"

section \<open>isOpen\<close>

text \<open>
  What a call does to the network is recorded as a trace of events. The dialer
  \<^verbatim>\<open>net.DialTimeout\<close> is the environment: a parameter that, given the trace so far,
  the network, the address and the timeout, answers with an error or a connection.
  \<^verbatim>\<open>net.JoinHostPort\<close> and \<^verbatim>\<open>strconv.Itoa\<close> are standard-library functions and
  parameters as well.
\<close>

datatype 'c event = DialTimeout string string int | Close 'c

record ('e, 'c) stdlib =
  JoinHostPort :: "string \<Rightarrow> string \<Rightarrow> string"
  Itoa :: "int \<Rightarrow> string"
  Dial :: "'c event list \<Rightarrow> string \<Rightarrow> string \<Rightarrow> int \<Rightarrow> 'e + 'c"

definition isOpen :: "('e, 'c) stdlib \<Rightarrow> 'c event list \<Rightarrow> string \<Rightarrow> int \<Rightarrow> bool \<times> 'c event list" where
  "isOpen L tr h port =
     (let addr = JoinHostPort L h (Itoa L port);
          tr1 = tr @ [DialTimeout ''tcp'' addr timeout]
      in case Dial L tr ''tcp'' addr timeout of
           Inl err \<Rightarrow> (False, tr1)
         | Inr conn \<Rightarrow> (True, tr1 @ [Close conn]))"

section \<open>scan\<close>

text \<open>
  \<^verbatim>\<open>scan\<close> starts one goroutine per port and waits for all of them. The model is an
  interleaving semantics: a state holds the shared scanner, the \<^verbatim>\<open>sync.WaitGroup\<close>
  counter, the position of the calling thread, the goroutines started so far with
  their own positions, and the network trace. A schedule, a list of thread names,
  chooses who moves next; a thread that cannot move (it waits in \<^verbatim>\<open>Lock\<close> or in
  \<^verbatim>\<open>Wait\<close>, or it has finished) leaves the state as it is.
\<close>

text \<open>
  The \<^verbatim>\<open>context.Context\<close> handed to \<^verbatim>\<open>scan\<close>: the background context, or one derived by
  \<^verbatim>\<open>context.WithCancel\<close>, with a flag telling whether it has been cancelled.
\<close>

datatype Context = Background | WithCancel Context bool

text \<open>
  The positions of a goroutine
  \<^verbatim>\<open>go func(p int) { defer wg.Done(); if isOpen(s.host, p) { s.add(p) } }(port)\<close>,
  with the body of \<^verbatim>\<open>add\<close> in place: \<^verbatim>\<open>s.Lock()\<close>, the assignment
  \<^verbatim>\<open>s.openPorts = append(s.openPorts, port)\<close> as a read of the field followed by
  a write of the appended slice, \<^verbatim>\<open>s.Unlock()\<close>, and last the deferred \<^verbatim>\<open>wg.Done()\<close>.
  A goroutine is its argument \<open>p\<close>, its position and the value \<^verbatim>\<open>isOpen\<close> returned to
  it (\<open>None\<close> before the call).
\<close>

datatype gpc = CallIsOpen | CallLock | LoadSlice | StoreSlice "int slice" | CallUnlock | CallDone | Exited

type_synonym goroutine = "int \<times> gpc \<times> bool option"

text \<open>
  The positions of the caller: in the \<^verbatim>\<open>range\<close> loop with the ports still to come, at
  \<^verbatim>\<open>wg.Wait()\<close>, at \<^verbatim>\<open>return s.openPorts\<close>, and returned with the result.
\<close>

datatype mpc = Ranging "int list" | AtWait | AtReturn | Returned "int slice"

datatype thread = MainThread | Go nat

text \<open>
  \<open>probes\<close> is a history variable: every return of \<^verbatim>\<open>isOpen\<close> is logged with the host
  and port of the call. \<open>fatal\<close> is set by a run-time error that ends the process
  (\<^verbatim>\<open>Unlock\<close> of a free mutex, a negative \<^verbatim>\<open>WaitGroup\<close> counter).
\<close>

record 'c state =
  sc :: scanner
  wg :: int
  mainpc :: mpc
  pool :: "goroutine list"
  net :: "'c event list"
  probes :: "(string \<times> int \<times> bool) list"
  fatal :: bool

definition main_step :: "'c state \<Rightarrow> 'c state" where
  "main_step st =
     (case mainpc st of
        Ranging [] \<Rightarrow> st\<lparr>mainpc := AtWait\<rparr>
      | Ranging (port # rest) \<Rightarrow>
          st\<lparr>wg := wg st + 1, pool := pool st @ [(port, CallIsOpen, None)], mainpc := Ranging rest\<rparr>
      | AtWait \<Rightarrow> if wg st = 0 then st\<lparr>mainpc := AtReturn\<rparr> else st
      | AtReturn \<Rightarrow> st\<lparr>mainpc := Returned (openPorts (sc st))\<rparr>
      | Returned r \<Rightarrow> st)"

definition go_step :: "('e, 'c) stdlib \<Rightarrow> nat \<Rightarrow> 'c state \<Rightarrow> 'c state" where
  "go_step L i st =
     (if length (pool st) \<le> i then st
      else case pool st ! i of (p, pc, ok) \<Rightarrow>
        (case pc of
           CallIsOpen \<Rightarrow>
             (case isOpen L (net st) (host (sc st)) p of (b, tr) \<Rightarrow>
                st\<lparr>net := tr, probes := probes st @ [(host (sc st), p, b)],
                   pool := (pool st)[i := (p, if b then CallLock else CallDone, Some b)]\<rparr>)
         | CallLock \<Rightarrow>
             (case Lock (sc st) of
                Inl f \<Rightarrow> st
              | Inr s' \<Rightarrow> st\<lparr>sc := s', pool := (pool st)[i := (p, LoadSlice, ok)]\<rparr>)
         | LoadSlice \<Rightarrow> st\<lparr>pool := (pool st)[i := (p, StoreSlice (openPorts (sc st)), ok)]\<rparr>
         | StoreSlice tmp \<Rightarrow>
             st\<lparr>sc := (sc st)\<lparr>openPorts := append_slice tmp p\<rparr>,
                pool := (pool st)[i := (p, CallUnlock, ok)]\<rparr>
         | CallUnlock \<Rightarrow>
             (case Unlock (sc st) of
                Inl f \<Rightarrow> st\<lparr>fatal := True\<rparr>
              | Inr s' \<Rightarrow> st\<lparr>sc := s', pool := (pool st)[i := (p, CallDone, ok)]\<rparr>)
         | CallDone \<Rightarrow>
             if wg st - 1 < 0 then st\<lparr>fatal := True\<rparr>
             else st\<lparr>wg := wg st - 1, pool := (pool st)[i := (p, Exited, ok)]\<rparr>
         | Exited \<Rightarrow> st))"

definition step :: "('e, 'c) stdlib \<Rightarrow> thread \<Rightarrow> 'c state \<Rightarrow> 'c state" where
  "step L t st =
     (if fatal st then st
      else case t of MainThread \<Rightarrow> main_step st | Go i \<Rightarrow> go_step L i st)"

fun run :: "('e, 'c) stdlib \<Rightarrow> thread list \<Rightarrow> 'c state \<Rightarrow> 'c state" where
  "run L [] st = st"
| "run L (t # ts) st = run L ts (step L t st)"

text \<open>
  The body of \<^verbatim>\<open>scan\<close> at its entry, for a given sequence of ports to range over:
  \<^verbatim>\<open>var wg sync.WaitGroup\<close> is zero and no goroutine runs. \<^verbatim>\<open>scan\<close> itself ranges
  over \<^verbatim>\<open>portsToScan(s.scanAll)\<close> and does not look at its context argument.
\<close>

definition scan_range :: "int list \<Rightarrow> scanner \<Rightarrow> 'c event list \<Rightarrow> 'c state" where
  "scan_range ports s tr =
     \<lparr>sc = s, wg = 0, mainpc = Ranging ports, pool = [], net = tr, probes = [], fatal = False\<rparr>"

definition scan :: "Context \<Rightarrow> scanner \<Rightarrow> 'c event list \<Rightarrow> 'c state" where
  "scan ctx s tr = scan_range (elems (portsToScan (scanAll s))) s tr"

subsection \<open>A scheduler\<close>

text \<open>
  One scheduler among all: the caller runs while it can; when it waits, the goroutine
  holding the mutex runs, or else the first goroutine that has not finished.
\<close>

fun in_cs :: "goroutine \<Rightarrow> bool" where
  "in_cs (p, pc, ok) =
     (case pc of LoadSlice \<Rightarrow> True | StoreSlice tmp \<Rightarrow> True | CallUnlock \<Rightarrow> True | _ \<Rightarrow> False)"

fun live :: "goroutine \<Rightarrow> bool" where
  "live (p, pc, ok) = (pc \<noteq> Exited)"

fun first_index :: "('a \<Rightarrow> bool) \<Rightarrow> 'a list \<Rightarrow> nat" where
  "first_index P [] = 0"
| "first_index P (x # xs) = (if P x then 0 else Suc (first_index P xs))"

definition pick :: "'c state \<Rightarrow> thread" where
  "pick st =
     (case mainpc st of
        AtWait \<Rightarrow>
          if wg st = 0 then MainThread
          else if Mutex (sc st) then Go (first_index in_cs (pool st))
          else Go (first_index live (pool st))
      | _ \<Rightarrow> MainThread)"

fun auto_sched :: "('e, 'c) stdlib \<Rightarrow> nat \<Rightarrow> 'c state \<Rightarrow> thread list" where
  "auto_sched L 0 st = []"
| "auto_sched L (Suc n) st = pick st # auto_sched L n (step L (pick st) st)"

subsection \<open>The invariant of a scan\<close>

text \<open>
  What a goroutine has appended to \<^verbatim>\<open>openPorts\<close> so far, what it has logged, and what
  its position says about its local values: the result of \<^verbatim>\<open>isOpen\<close> is known from
  the call on, it is true inside \<^verbatim>\<open>add\<close>, and the slice read under the lock is still
  the current one when it is written back.
\<close>

fun stored :: "goroutine \<Rightarrow> int list" where
  "stored (p, pc, ok) =
     (case pc of CallUnlock \<Rightarrow> [p]
               | CallDone \<Rightarrow> (if ok = Some True then [p] else [])
               | Exited \<Rightarrow> (if ok = Some True then [p] else [])
               | _ \<Rightarrow> [])"

fun probed :: "string \<Rightarrow> goroutine \<Rightarrow> (string \<times> int \<times> bool) list" where
  "probed h (p, pc, ok) = (case ok of None \<Rightarrow> [] | Some b \<Rightarrow> [(h, p, b)])"

fun local_ok :: "int slice \<Rightarrow> goroutine \<Rightarrow> bool" where
  "local_ok cur (p, pc, ok) =
     (case pc of CallIsOpen \<Rightarrow> ok = None
               | CallLock \<Rightarrow> ok = Some True
               | LoadSlice \<Rightarrow> ok = Some True
               | StoreSlice tmp \<Rightarrow> ok = Some True \<and> tmp = cur
               | CallUnlock \<Rightarrow> ok = Some True
               | CallDone \<Rightarrow> ok \<noteq> None
               | Exited \<Rightarrow> ok \<noteq> None)"

fun remaining :: "mpc \<Rightarrow> int list" where
  "remaining (Ranging ps) = ps"
| "remaining AtWait = []"
| "remaining AtReturn = []"
| "remaining (Returned r) = []"

fun main_ok :: "mpc \<Rightarrow> int \<Rightarrow> int slice \<Rightarrow> bool" where
  "main_ok (Ranging ps) n cur = True"
| "main_ok AtWait n cur = True"
| "main_ok AtReturn n cur = (n = 0)"
| "main_ok (Returned r) n cur = (n = 0 \<and> r = cur)"

definition scan_inv :: "int list \<Rightarrow> scanner \<Rightarrow> 'c state \<Rightarrow> bool" where
  "scan_inv ports s0 st \<longleftrightarrow>
     \<not> fatal st \<and> host (sc st) = host s0 \<and> scanAll (sc st) = scanAll s0
     \<and> map fst (pool st) @ remaining (mainpc st) = ports
     \<and> wg st = int (length (filter live (pool st)))
     \<and> length (filter in_cs (pool st)) = (if Mutex (sc st) then 1 else 0)
     \<and> list_all (local_ok (openPorts (sc st))) (pool st)
     \<and> mset (elems (openPorts (sc st)))
         = mset (elems (openPorts s0)) + mset (concat (map stored (pool st)))
     \<and> mset (probes st) = mset (concat (map (probed (host s0)) (pool st)))
     \<and> main_ok (mainpc st) (wg st) (openPorts (sc st))"

text \<open>A bound on the moves that are left: each move that changes the state lowers it.\<close>

fun weight :: "goroutine \<Rightarrow> nat" where
  "weight (p, pc, ok) =
     (case pc of CallIsOpen \<Rightarrow> 6 | CallLock \<Rightarrow> 5 | LoadSlice \<Rightarrow> 4 | StoreSlice tmp \<Rightarrow> 3
               | CallUnlock \<Rightarrow> 2 | CallDone \<Rightarrow> 1 | Exited \<Rightarrow> 0)"

fun main_weight :: "mpc \<Rightarrow> nat" where
  "main_weight (Ranging ps) = 7 * length ps + 3"
| "main_weight AtWait = 2"
| "main_weight AtReturn = 1"
| "main_weight (Returned r) = 0"

definition steps_left :: "'c state \<Rightarrow> nat" where
  "steps_left st = main_weight (mainpc st) + sum_list (map weight (pool st))"

text \<open>The fields of a log entry, and the log's agreement with \<^verbatim>\<open>isOpen\<close>.\<close>

fun probe_host :: "string \<times> int \<times> bool \<Rightarrow> string" where
  "probe_host (h, p, b) = h"

fun probe_port :: "string \<times> int \<times> bool \<Rightarrow> int" where
  "probe_port (h, p, b) = p"

fun probe_open :: "string \<times> int \<times> bool \<Rightarrow> bool" where
  "probe_open (h, p, b) = b"

definition sound_log :: "('e, 'c) stdlib \<Rightarrow> (string \<times> int \<times> bool) list \<Rightarrow> bool" where
  "sound_log L lg \<longleftrightarrow>
     (\<forall>e \<in> set lg. \<exists>tr. fst (isOpen L tr (probe_host e) (probe_port e)) = probe_open e)"

section \<open>Properties of portsToScan\<close>

lemma elems_append_slice: "elems (append_slice sl x) = elems sl @ [x]"
  by (simp add: append_slice_def elems_def)

lemma portsLoop_elems: "elems (portsLoop mx port ports) = elems ports @ [port..mx - 1]"
proof (induction mx port ports rule: portsLoop.induct)
  case (1 mx port ports)
  show ?case
  proof (cases "port < mx")
    case True
    then have "[port..mx - 1] = port # [port + 1..mx - 1]"
      by (simp add: upto_rec1)
    with True "1" show ?thesis
      by (subst portsLoop.simps) (simp add: elems_append_slice)
  next
    case False
    then show ?thesis
      by (subst portsLoop.simps) simp
  qed
qed

lemma portsLoop_Some: "port < mx \<Longrightarrow> portsLoop mx port ports = Some (elems ports @ [port..mx - 1])"
proof (induction mx port ports rule: portsLoop.induct)
  case (1 mx port ports)
  have step: "portsLoop mx port ports = portsLoop mx (port + 1) (append_slice ports port)"
    using "1.prems" by (subst portsLoop.simps) simp
  have up: "[port..mx - 1] = port # [port + 1..mx - 1]"
    using "1.prems" by (simp add: upto_rec1)
  show ?case
  proof (cases "port + 1 < mx")
    case True
    with "1.IH" "1.prems" step up show ?thesis
      by (simp add: elems_append_slice)
  next
    case False
    then have "portsLoop mx (port + 1) (append_slice ports port) = append_slice ports port"
      by (subst portsLoop.simps) simp
    moreover from False "1.prems" have "[port + 1..mx - 1] = []"
      by simp
    ultimately show ?thesis
      using step up by (simp add: append_slice_def)
  qed
qed

lemma portsToScan_eq:
  "portsToScan b = Some [1..(if b then allPorts else wellKnownPorts) - 1]"
proof -
  have "1 < (if b then allPorts else wellKnownPorts)"
    by (simp add: allPorts_def wellKnownPorts_def)
  then have "portsLoop (if b then allPorts else wellKnownPorts) 1 None
      = Some (elems None @ [1..(if b then allPorts else wellKnownPorts) - 1])"
    by (rule portsLoop_Some)
  then show ?thesis
    by (simp only: portsToScan_def Let_def elems_def option.case append_Nil)
qed

lemma wellKnownPorts_pred: "wellKnownPorts - 1 = 1023"
  by (simp add: wellKnownPorts_def)

lemma allPorts_pred: "allPorts - 1 = 65534"
  by (simp add: allPorts_def)

lemma portsToScan_False: "portsToScan False = Some [1..1023]"
  using portsToScan_eq [of False] by (simp only: if_False wellKnownPorts_pred)

lemma portsToScan_True: "portsToScan True = Some [1..65534]"
  using portsToScan_eq [of True] by (simp only: if_True allPorts_pred)

lemma elems_Some: "elems (Some xs) = xs"
  by (simp add: elems_def)

lemma upto_1_map: "[1..int n] = map (\<lambda>i. int i + 1) [0..<n]"
proof (induction n)
  case 0
  show ?case by simp
next
  case (Suc n)
  have "[1..int (Suc n)] = [1..int n] @ [int n + 1]"
    by (simp add: upto_rec2 add.commute)
  with Suc show ?case by simp
qed

lemma portsToScan_consecutive:
  "elems (portsToScan b) = map (\<lambda>i. int i + 1) [0..<len (portsToScan b)]"
proof -
  define m where "m = (if b then allPorts else wellKnownPorts) - 1"
  have m0: "0 \<le> m" by (simp add: m_def allPorts_def wellKnownPorts_def)
  have e: "elems (portsToScan b) = [1..m]"
    by (simp only: portsToScan_eq elems_Some m_def)
  have l: "len (portsToScan b) = nat m"
    using m0 by (simp add: len_def e)
  have "[1..m] = [1..int (nat m)]" using m0 by simp
  also have "\<dots> = map (\<lambda>i. int i + 1) [0..<nat m]" by (rule upto_1_map)
  finally show ?thesis by (simp only: e l)
qed

lemma take_length_append: "take (length xs) (xs @ ys) = xs"
  by simp

lemma split_ports: "[1..65534] = [1..1023] @ [1024..65534]"
  using upto_split1 [of 1 1024 65534] by (simp del: upto_rec_numeral)

text \<open>
  C2. \<^verbatim>\<open>portsToScan(false)\<close> returns exactly the ascending sequence of the integers
  1 to 1023: 1023 values, with neither 0 nor 1024 among them.
\<close>

theorem portsToScan_false_exact:
  "portsToScan False = Some [1..1023]
   \<and> length (elems (portsToScan False)) = 1023
   \<and> 0 \<notin> set (elems (portsToScan False))
   \<and> 1024 \<notin> set (elems (portsToScan False))"
  by (simp only: portsToScan_False elems_Some length_upto set_upto) simp

text \<open>
  C3. \<^verbatim>\<open>portsToScan(true)\<close> returns exactly the ascending sequence of the integers
  1 to 65534: 65534 values, with neither 0 nor 65535 among them.
\<close>

theorem portsToScan_true_exact:
  "portsToScan True = Some [1..65534]
   \<and> length (elems (portsToScan True)) = 65534
   \<and> 0 \<notin> set (elems (portsToScan True))
   \<and> 65535 \<notin> set (elems (portsToScan True))"
  by (simp only: portsToScan_True elems_Some length_upto set_upto) simp

text \<open>
  C4, as stated: with \<^verbatim>\<open>scanAll\<close> false, \<^verbatim>\<open>portsToScan\<close> produces 1024 values. It does
  not: the loop stops before \<^verbatim>\<open>wellKnownPorts\<close>.
\<close>

theorem portsToScan_false_not_1024: "len (portsToScan False) \<noteq> 1024"
  by (simp add: portsToScan_False len_def elems_Some del: upto_rec_numeral)

text \<open>
  C4, amended: with \<^verbatim>\<open>scanAll\<close> false, \<^verbatim>\<open>portsToScan\<close> produces 1023 values, the
  integers 1 to 1023 inclusive, that is 1 to \<^verbatim>\<open>wellKnownPorts - 1\<close>.
\<close>

theorem portsToScan_false_count:
  "len (portsToScan False) = 1023
   \<and> elems (portsToScan False) = [1..wellKnownPorts - 1]
   \<and> set (elems (portsToScan False)) = {1..1023}"
  by (simp only: portsToScan_False len_def elems_Some length_upto set_upto wellKnownPorts_pred) simp

text \<open>
  C9. \<^verbatim>\<open>portsToScan(false)\<close> has 1023 elements and \<^verbatim>\<open>portsToScan(true)\<close> has 65534;
  the first 1023 elements of the latter are the whole of the former, which is so a
  prefix of it. For either flag the output starts with 1 and is the consecutive
  integers from there on (element \<open>i\<close> is \<open>i + 1\<close>), hence strictly increasing and
  free of duplicates.
\<close>

theorem portsToScan_prefix_consecutive:
  "len (portsToScan False) = 1023
   \<and> len (portsToScan True) = 65534
   \<and> take 1023 (elems (portsToScan True)) = elems (portsToScan False)
   \<and> prefix (elems (portsToScan False)) (elems (portsToScan True))
   \<and> len (portsToScan b) = (if b then 65534 else 1023)
   \<and> (\<exists>rest. elems (portsToScan b) = 1 # rest)
   \<and> elems (portsToScan b) = map (\<lambda>i. int i + 1) [0..<len (portsToScan b)]
   \<and> sorted_wrt (<) (elems (portsToScan b))
   \<and> distinct (elems (portsToScan b))"
proof -
  have l: "length [1..1023::int] = 1023" by (simp only: length_upto)
  have lf: "len (portsToScan False) = 1023"
    by (simp only: len_def portsToScan_False elems_Some length_upto)
  have lt: "len (portsToScan True) = 65534"
    by (simp only: len_def portsToScan_True elems_Some length_upto)
  have lb: "len (portsToScan b) = (if b then 65534 else 1023)"
    using lf lt by (cases b) simp_all
  have t: "take 1023 (elems (portsToScan True)) = elems (portsToScan False)"
    by (simp only: portsToScan_True portsToScan_False elems_Some split_ports
          l [symmetric] take_length_append)
  have p: "prefix (elems (portsToScan False)) (elems (portsToScan True))"
    by (simp only: portsToScan_True portsToScan_False elems_Some split_ports prefixI)
  have e: "elems (portsToScan b) = [1..(if b then allPorts else wellKnownPorts) - 1]"
    by (simp only: portsToScan_eq elems_Some)
  have "1 \<le> (if b then allPorts else wellKnownPorts) - 1"
    by (simp add: allPorts_def wellKnownPorts_def)
  then have "[1..(if b then allPorts else wellKnownPorts) - 1]
      = 1 # [1 + 1..(if b then allPorts else wellKnownPorts) - 1]"
    by (rule upto_rec1)
  with e have h: "\<exists>rest. elems (portsToScan b) = 1 # rest"
    by (intro exI [of _ "[1 + 1..(if b then allPorts else wellKnownPorts) - 1]"]) (simp only:)
  have d: "distinct (elems (portsToScan b))"
    by (simp only: e distinct_upto)
  have s: "sorted_wrt (<) (elems (portsToScan b))"
    by (simp only: e strict_sorted_iff sorted_upto distinct_upto)
  from lf lt t p lb h portsToScan_consecutive d s show ?thesis by blast
qed

section \<open>Properties of newScanner, add and isOpen\<close>

text \<open>
  C5. For every string \<open>h\<close> and flag \<open>b\<close>, \<^verbatim>\<open>newScanner(h, b)\<close> returns an error if and
  only if \<^verbatim>\<open>net.ParseIP\<close> rejects \<open>h\<close> (it is not an IPv4 or IPv6 literal). The error
  is built from the offending string and no scanner comes with it. On success the
  scanner has host \<open>h\<close>, flag \<open>b\<close>, an empty (nil) \<^verbatim>\<open>openPorts\<close> and a free mutex.
\<close>

theorem newScanner_validates:
  "((\<exists>e. newScanner P h b = Inl e) \<longleftrightarrow> P h = None)
   \<and> (P h = None \<longrightarrow> newScanner P h b = Inl (Errorf ''%q is an invalid ip address'' [h]))
   \<and> (P h \<noteq> None \<longrightarrow>
        (\<exists>s. newScanner P h b = Inr s \<and> host s = h \<and> scanAll s = b
             \<and> openPorts s = None \<and> len (openPorts s) = 0 \<and> \<not> Mutex s))"
  by (simp add: newScanner_def len_def elems_def)

theorem newScanner_validates_witness:
  "(\<exists>e. newScanner (\<lambda>x. if x = ''127.0.0.1'' then Some () else None) ''example.com'' True = Inl e)
   \<and> newScanner (\<lambda>x. if x = ''127.0.0.1'' then Some () else None) ''example.com'' True
       = Inl (Errorf ''%q is an invalid ip address'' [''example.com''])
   \<and> (\<exists>s. newScanner (\<lambda>x. if x = ''127.0.0.1'' then Some () else None) ''127.0.0.1'' False = Inr s
         \<and> host s = ''127.0.0.1'' \<and> scanAll s = False \<and> len (openPorts s) = 0)"
  using newScanner_validates [of "\<lambda>x. if x = ''127.0.0.1'' then Some () else None" "''example.com''" True]
        newScanner_validates [of "\<lambda>x. if x = ''127.0.0.1'' then Some () else None" "''127.0.0.1''" False]
  by auto

text \<open>
  C10. For every scanner state and every port \<open>p\<close>, \<^verbatim>\<open>add(p)\<close> appends the single
  element \<open>p\<close> at the end of \<^verbatim>\<open>openPorts\<close>, keeps the elements already stored and their
  order, and leaves \<^verbatim>\<open>host\<close>, \<^verbatim>\<open>scanAll\<close> and the mutex as they were; \<open>p\<close> is not
  checked against any range or against the stored elements. A call made while the
  mutex is held waits in \<^verbatim>\<open>Lock\<close> and has changed nothing.
\<close>

theorem add_appends:
  "(Mutex s \<longrightarrow> add p s = Inl Blocked)
   \<and> (\<not> Mutex s \<longrightarrow>
        add p s = Inr (s\<lparr>openPorts := Some (elems (openPorts s) @ [p])\<rparr>)
        \<and> (\<exists>s'. add p s = Inr s' \<and> elems (openPorts s') = elems (openPorts s) @ [p]
              \<and> host s' = host s \<and> scanAll s' = scanAll s \<and> Mutex s' = Mutex s))"
  by (simp add: add_def Lock_def Unlock_def append_slice_def elems_def)

theorem add_appends_witness:
  "add 80 \<lparr>Mutex = False, host = ''127.0.0.1'', openPorts = Some [22, 80], scanAll = False\<rparr>
     = Inr \<lparr>Mutex = False, host = ''127.0.0.1'', openPorts = Some [22, 80, 80], scanAll = False\<rparr>
   \<and> add (-7) \<lparr>Mutex = False, host = ''127.0.0.1'', openPorts = None, scanAll = True\<rparr>
     = Inr \<lparr>Mutex = False, host = ''127.0.0.1'', openPorts = Some [-7], scanAll = True\<rparr>
   \<and> add 80 \<lparr>Mutex = True, host = ''127.0.0.1'', openPorts = None, scanAll = True\<rparr> = Inl Blocked"
  using add_appends [of "\<lparr>Mutex = False, host = ''127.0.0.1'', openPorts = Some [22, 80], scanAll = False\<rparr>" 80]
        add_appends [of "\<lparr>Mutex = False, host = ''127.0.0.1'', openPorts = None, scanAll = True\<rparr>" "-7"]
        add_appends [of "\<lparr>Mutex = True, host = ''127.0.0.1'', openPorts = None, scanAll = True\<rparr>" 80]
  by (simp add: elems_def)

text \<open>
  C6. \<^verbatim>\<open>isOpen(host, port)\<close> makes one call of \<^verbatim>\<open>net.DialTimeout\<close>, for the network
  \<^verbatim>\<open>tcp\<close>, the address joined from the host and the port, and a timeout of three
  seconds (3000000000 ns). When the dial yields a connection the result is true and
  the connection is closed at once; when it yields an error, whichever it is, the
  result is false and nothing else happens. The result is a boolean: the error is
  not passed on.
\<close>

theorem isOpen_dials_once:
  "(\<forall>c. Dial L tr ''tcp'' (JoinHostPort L h (Itoa L port)) 3000000000 = Inr c \<longrightarrow>
        isOpen L tr h port
          = (True, tr @ [DialTimeout ''tcp'' (JoinHostPort L h (Itoa L port)) 3000000000, Close c]))
   \<and> (\<forall>e. Dial L tr ''tcp'' (JoinHostPort L h (Itoa L port)) 3000000000 = Inl e \<longrightarrow>
        isOpen L tr h port
          = (False, tr @ [DialTimeout ''tcp'' (JoinHostPort L h (Itoa L port)) 3000000000]))
   \<and> take (length tr) (snd (isOpen L tr h port)) = tr
   \<and> length (filter (\<lambda>ev. case ev of DialTimeout n a t \<Rightarrow> True | Close c \<Rightarrow> False)
               (drop (length tr) (snd (isOpen L tr h port)))) = 1"
  by (simp add: isOpen_def timeout_def Second_def Let_def split: sum.splits)

theorem isOpen_dials_once_witness:
  "isOpen \<lparr>JoinHostPort = (\<lambda>h p. h @ '':'' @ p),
           Itoa = (\<lambda>i. if i = 80 then ''80'' else ''22''),
           Dial = (\<lambda>tr n a t. if a = ''127.0.0.1:80'' then Inr (7::nat) else Inl ''refused'')\<rparr>
          [] ''127.0.0.1'' 80
     = (True, [DialTimeout ''tcp'' ''127.0.0.1:80'' 3000000000, Close 7])
   \<and> isOpen \<lparr>JoinHostPort = (\<lambda>h p. h @ '':'' @ p),
           Itoa = (\<lambda>i. if i = 80 then ''80'' else ''22''),
           Dial = (\<lambda>tr n a t. if a = ''127.0.0.1:80'' then Inr (7::nat) else Inl ''refused'')\<rparr>
          [] ''127.0.0.1'' 22
     = (False, [DialTimeout ''tcp'' ''127.0.0.1:22'' 3000000000])"
  using isOpen_dials_once [of "\<lparr>JoinHostPort = (\<lambda>h p. h @ '':'' @ p),
           Itoa = (\<lambda>i. if i = 80 then ''80'' else ''22''),
           Dial = (\<lambda>tr n a t. if a = ''127.0.0.1:80'' then Inr (7::nat) else Inl ''refused'')\<rparr>"
          "[]" "''127.0.0.1''" 80]
        isOpen_dials_once [of "\<lparr>JoinHostPort = (\<lambda>h p. h @ '':'' @ p),
           Itoa = (\<lambda>i. if i = 80 then ''80'' else ''22''),
           Dial = (\<lambda>tr n a t. if a = ''127.0.0.1:80'' then Inr (7::nat) else Inl ''refused'')\<rparr>"
          "[]" "''127.0.0.1''" 22]
  by simp

section \<open>The invariant is kept by every move\<close>

lemma inv_scan_range: "\<not> Mutex s \<Longrightarrow> scan_inv ports s (scan_range ports s tr)"
  by (simp add: scan_inv_def scan_range_def)

lemma inv_main_step: "scan_inv ports s0 st \<Longrightarrow> scan_inv ports s0 (main_step st)"
  unfolding scan_inv_def main_step_def
  by (cases "mainpc st"; cases "remaining (mainpc st)") (auto split: list.splits)

lemma local_ok_outside_cs: "\<not> in_cs g \<Longrightarrow> local_ok c1 g = local_ok c2 g"
  by (cases g) (auto split: gpc.splits)

lemma list_all_local_ok_cong:
  "filter in_cs gs = [] \<Longrightarrow> list_all (local_ok c1) gs = list_all (local_ok c2) gs"
  by (induction gs) (auto split: if_splits dest: local_ok_outside_cs)

lemma pool_split:
  assumes "i < length gs"
  obtains as g bs where "gs = as @ g # bs" and "length as = i"
  using assms id_take_nth_drop [of i gs] by (metis length_take min.absorb2 less_imp_le)

lemma inv_go_step:
  assumes I: "scan_inv ports s0 st"
  shows "scan_inv ports s0 (go_step L i st)"
proof (cases "length (pool st) \<le> i")
  case True
  with I show ?thesis by (simp add: go_step_def)
next
  case False
  then have "i < length (pool st)" by simp
  then obtain as g bs where sp: "pool st = as @ g # bs" and li: "length as = i"
    by (rule pool_split)
  obtain p pc ok where g: "g = (p, pc, ok)" by (cases g)
  have nth: "pool st ! i = (p, pc, ok)" using sp li g by auto
  have upd: "\<And>g'. (pool st)[i := g'] = as @ g' # bs" using sp li by auto
  show ?thesis
  proof (cases pc)
    case CallIsOpen
    obtain b tr where io: "isOpen L (net st) (host (sc st)) p = (b, tr)"
      by (cases "isOpen L (net st) (host (sc st)) p")
    have eq: "go_step L i st = st\<lparr>net := tr, probes := probes st @ [(host (sc st), p, b)],
                   pool := as @ (p, if b then CallLock else CallDone, Some b) # bs\<rparr>"
      using False nth CallIsOpen io by (simp add: go_step_def upd)
    from I sp g CallIsOpen show ?thesis
      unfolding eq scan_inv_def by (cases "mainpc st") auto
  next
    case CallLock
    show ?thesis
    proof (cases "Mutex (sc st)")
      case True
      then have "go_step L i st = st"
        using False nth CallLock by (simp add: go_step_def Lock_def)
      with I show ?thesis by simp
    next
      case M: False
      then have eq: "go_step L i st = st\<lparr>sc := (sc st)\<lparr>Mutex := True\<rparr>, pool := as @ (p, LoadSlice, ok) # bs\<rparr>"
        using False nth CallLock by (simp add: go_step_def Lock_def upd)
      from I sp g CallLock M show ?thesis
        unfolding eq scan_inv_def by (cases "mainpc st") auto
    qed
  next
    case LoadSlice
    have eq: "go_step L i st = st\<lparr>pool := as @ (p, StoreSlice (openPorts (sc st)), ok) # bs\<rparr>"
      using False nth LoadSlice by (simp add: go_step_def upd)
    from I sp g LoadSlice show ?thesis
      unfolding eq scan_inv_def by (cases "mainpc st") auto
  next
    case (StoreSlice tmp)
    have eq: "go_step L i st = st\<lparr>sc := (sc st)\<lparr>openPorts := append_slice tmp p\<rparr>,
                pool := as @ (p, CallUnlock, ok) # bs\<rparr>"
      using False nth StoreSlice by (simp add: go_step_def upd)
    from I sp g StoreSlice have e: "filter in_cs as = []" "filter in_cs bs = []"
      unfolding scan_inv_def by (auto split: if_splits)
    from I sp g StoreSlice have t: "tmp = openPorts (sc st)"
      unfolding scan_inv_def by auto
    have c: "list_all (local_ok (append_slice tmp p)) as = list_all (local_ok (openPorts (sc st))) as"
            "list_all (local_ok (append_slice tmp p)) bs = list_all (local_ok (openPorts (sc st))) bs"
      by (rule list_all_local_ok_cong, rule e(1), rule list_all_local_ok_cong, rule e(2))
    from I sp g StoreSlice t c show ?thesis
      unfolding eq scan_inv_def by (cases "mainpc st") (auto simp: elems_append_slice)
  next
    case CallUnlock
    from I sp g CallUnlock have m: "Mutex (sc st)"
      unfolding scan_inv_def by (auto split: if_splits)
    have eq: "go_step L i st = st\<lparr>sc := (sc st)\<lparr>Mutex := False\<rparr>, pool := as @ (p, CallDone, ok) # bs\<rparr>"
      using False nth CallUnlock m by (simp add: go_step_def Unlock_def upd)
    from I sp g CallUnlock m show ?thesis
      unfolding eq scan_inv_def by (cases "mainpc st") auto
  next
    case CallDone
    from I sp g CallDone have w: "\<not> wg st - 1 < 0"
      unfolding scan_inv_def by auto
    have eq: "go_step L i st = st\<lparr>wg := wg st - 1, pool := as @ (p, Exited, ok) # bs\<rparr>"
      using False nth CallDone w by (simp add: go_step_def upd)
    from I sp g CallDone show ?thesis
      unfolding eq scan_inv_def by (cases "mainpc st") auto
  next
    case Exited
    then have "go_step L i st = st"
      using False nth by (simp add: go_step_def)
    with I show ?thesis by simp
  qed
qed

lemma inv_step: "scan_inv ports s0 st \<Longrightarrow> scan_inv ports s0 (step L t st)"
  by (cases t) (simp_all add: step_def inv_main_step inv_go_step)

lemma inv_run: "scan_inv ports s0 st \<Longrightarrow> scan_inv ports s0 (run L ts st)"
  by (induction ts arbitrary: st) (simp_all add: inv_step)

section \<open>Every scan returns\<close>

lemma first_index_split:
  "filter P xs \<noteq> [] \<Longrightarrow>
     \<exists>as g bs. xs = as @ g # bs \<and> length as = first_index P xs \<and> P g \<and> filter P as = []"
proof (induction xs)
  case Nil
  then show ?case by simp
next
  case (Cons x xs)
  show ?case
  proof (cases "P x")
    case True
    then show ?thesis by (intro exI [of _ "[]"]) simp
  next
    case False
    with Cons obtain as g bs where
      "xs = as @ g # bs" "length as = first_index P xs" "P g" "filter P as = []"
      by auto
    with False show ?thesis
      by (intro exI [of _ "x # as"] exI [of _ g] exI [of _ bs]) simp
  qed
qed

lemma go_step_at:
  assumes "pool st = as @ (p, pc, ok) # bs"
  shows "go_step L (length as) st =
     (case pc of
           CallIsOpen \<Rightarrow>
             (case isOpen L (net st) (host (sc st)) p of (b, tr) \<Rightarrow>
                st\<lparr>net := tr, probes := probes st @ [(host (sc st), p, b)],
                   pool := as @ (p, if b then CallLock else CallDone, Some b) # bs\<rparr>)
         | CallLock \<Rightarrow>
             (case Lock (sc st) of
                Inl f \<Rightarrow> st
              | Inr s' \<Rightarrow> st\<lparr>sc := s', pool := as @ (p, LoadSlice, ok) # bs\<rparr>)
         | LoadSlice \<Rightarrow> st\<lparr>pool := as @ (p, StoreSlice (openPorts (sc st)), ok) # bs\<rparr>
         | StoreSlice tmp \<Rightarrow>
             st\<lparr>sc := (sc st)\<lparr>openPorts := append_slice tmp p\<rparr>,
                pool := as @ (p, CallUnlock, ok) # bs\<rparr>
         | CallUnlock \<Rightarrow>
             (case Unlock (sc st) of
                Inl f \<Rightarrow> st\<lparr>fatal := True\<rparr>
              | Inr s' \<Rightarrow> st\<lparr>sc := s', pool := as @ (p, CallDone, ok) # bs\<rparr>)
         | CallDone \<Rightarrow>
             if wg st - 1 < 0 then st\<lparr>fatal := True\<rparr>
             else st\<lparr>wg := wg st - 1, pool := as @ (p, Exited, ok) # bs\<rparr>
         | Exited \<Rightarrow> st)"
  using assms by (simp add: go_step_def split: gpc.splits prod.splits sum.splits)

lemma progress:
  assumes I: "scan_inv ports s0 st" and nr: "\<forall>r. mainpc st \<noteq> Returned r"
  shows "steps_left (step L (pick st) st) < steps_left st"
proof -
  from I have nf: "\<not> fatal st" by (simp add: scan_inv_def)
  show ?thesis
  proof (cases "mainpc st")
    case (Ranging ps)
    with nf show ?thesis
      by (cases ps) (simp_all add: pick_def step_def main_step_def steps_left_def)
  next
    case AtReturn
    with nf show ?thesis
      by (simp add: pick_def step_def main_step_def steps_left_def)
  next
    case (Returned r)
    with nr show ?thesis by simp
  next
    case AtWait
    show ?thesis
    proof (cases "wg st = 0")
      case True
      with nf AtWait show ?thesis
        by (simp add: pick_def step_def main_step_def steps_left_def)
    next
      case w: False
      show ?thesis
      proof (cases "Mutex (sc st)")
        case True
        with I have "filter in_cs (pool st) \<noteq> []"
          by (auto simp: scan_inv_def)
        then obtain as g bs where sp: "pool st = as @ g # bs"
          and li: "length as = first_index in_cs (pool st)" and cs: "in_cs g"
          using first_index_split by blast
        obtain p pc ok where g: "g = (p, pc, ok)" by (cases g)
        have pk: "pick st = Go (length as)"
          using AtWait w True li by (simp add: pick_def)
        from I sp g cs True show ?thesis
          unfolding pk step_def
          by (auto simp: nf go_step_at [OF sp [unfolded g]] steps_left_def scan_inv_def Unlock_def
                split: gpc.splits)
      next
        case False
        from I w have "filter live (pool st) \<noteq> []"
          by (auto simp: scan_inv_def)
        then obtain as g bs where sp: "pool st = as @ g # bs"
          and li: "length as = first_index live (pool st)" and lv: "live g"
          using first_index_split by blast
        obtain p pc ok where g: "g = (p, pc, ok)" by (cases g)
        have pk: "pick st = Go (length as)"
          using AtWait w False li by (simp add: pick_def)
        from I sp g False have ncs: "\<not> in_cs g"
          by (auto simp: scan_inv_def)
        from I sp g lv ncs False show ?thesis
          unfolding pk step_def
          by (auto simp: nf go_step_at [OF sp [unfolded g]] steps_left_def scan_inv_def Lock_def
                split: gpc.splits prod.splits)
      qed
    qed
  qed
qed

lemma auto_sched_returned:
  "mainpc st = Returned r \<Longrightarrow> run L (auto_sched L n st) st = st"
proof (induction n)
  case 0
  show ?case by simp
next
  case (Suc n)
  then have "step L (pick st) st = st"
    by (simp add: pick_def step_def main_step_def)
  with Suc show ?case by simp
qed

lemma auto_sched_returns:
  "scan_inv ports s0 st \<Longrightarrow> steps_left st \<le> n \<Longrightarrow>
     \<exists>r. mainpc (run L (auto_sched L n st) st) = Returned r"
proof (induction n arbitrary: st)
  case 0
  then have "main_weight (mainpc st) = 0" by (simp add: steps_left_def)
  then show ?case by (cases "mainpc st") simp_all
next
  case (Suc n)
  show ?case
  proof (cases "\<exists>r. mainpc st = Returned r")
    case True
    then obtain r where r: "mainpc st = Returned r" ..
    from auto_sched_returned [OF r] r show ?thesis by metis
  next
    case False
    then have "steps_left (step L (pick st) st) < steps_left st"
      using progress [OF Suc.prems(1)] by simp
    with Suc.prems(2) have "steps_left (step L (pick st) st) \<le> n" by simp
    with Suc.IH [OF inv_step [OF Suc.prems(1)]] show ?thesis by simp
  qed
qed

lemma steps_left_scan_range: "steps_left (scan_range ports s tr) = 7 * length ports + 3"
  by (simp add: steps_left_def scan_range_def)

section \<open>What a returned scan has done\<close>

lemma final_pool:
  "filter live gs = [] \<Longrightarrow> list_all (local_ok c) gs \<Longrightarrow>
     concat (map stored gs) = map probe_port (filter probe_open (concat (map (probed h) gs)))
     \<and> map probe_port (concat (map (probed h) gs)) = map fst gs
     \<and> list_all (\<lambda>e. probe_host e = h) (concat (map (probed h) gs))"
proof (induction gs)
  case Nil
  show ?case by simp
next
  case (Cons g gs)
  obtain p pc ok where g: "g = (p, pc, ok)" by (cases g)
  from Cons.prems g have pc: "pc = Exited" by (simp split: if_splits)
  from Cons.prems g pc obtain b where ok: "ok = Some b" by auto
  from Cons.prems have "filter live gs = []" "list_all (local_ok c) gs"
    by (simp_all split: if_splits)
  with Cons.IH g pc ok show ?case by simp
qed

lemma returned_facts:
  assumes I: "scan_inv ports s0 st" and R: "mainpc st = Returned r"
  shows "mset (elems r) = mset (elems (openPorts s0))
            + mset (map probe_port (filter probe_open (probes st)))"
    and "mset (map probe_port (probes st)) = mset ports"
    and "list_all (\<lambda>e. probe_host e = host s0) (probes st)"
proof -
  from I R have r: "r = openPorts (sc st)"
    by (simp add: scan_inv_def)
  from I R have w: "filter live (pool st) = []"
    by (auto simp: scan_inv_def)
  from I have lo: "list_all (local_ok (openPorts (sc st))) (pool st)"
    by (simp add: scan_inv_def)
  from I R have rem: "map fst (pool st) = ports"
    by (simp add: scan_inv_def)
  note F = final_pool [OF w lo, of "host s0"]
  from I have pm: "mset (probes st) = mset (concat (map (probed (host s0)) (pool st)))"
    by (simp add: scan_inv_def)
  have "mset (map probe_port (filter probe_open (probes st)))
      = image_mset probe_port (filter_mset probe_open (mset (probes st)))"
    by simp
  also have "\<dots> = mset (concat (map stored (pool st)))"
    unfolding pm using F by (simp del: mset_concat)
  finally show "mset (elems r) = mset (elems (openPorts s0))
            + mset (map probe_port (filter probe_open (probes st)))"
    using I r by (simp add: scan_inv_def)
  have "mset (map probe_port (probes st)) = image_mset probe_port (mset (probes st))"
    by simp
  also have "\<dots> = mset (map fst (pool st))"
    unfolding pm using F by (metis mset_map)
  finally show "mset (map probe_port (probes st)) = mset ports"
    using rem by simp
  have "set (probes st) = set (concat (map (probed (host s0)) (pool st)))"
    using pm by (rule mset_eq_setD)
  with F show "list_all (\<lambda>e. probe_host e = host s0) (probes st)"
    by (simp add: list_all_iff)
qed

lemma sound_log_step: "sound_log L (probes st) \<Longrightarrow> sound_log L (probes (step L t st))"
proof (cases t)
  case MainThread
  assume "sound_log L (probes st)"
  with MainThread show ?thesis
    by (auto simp: step_def main_step_def split: mpc.splits list.splits)
next
  case (Go i)
  assume S: "sound_log L (probes st)"
  show ?thesis
  proof (cases "fatal st \<or> length (pool st) \<le> i")
    case True
    with S Go show ?thesis by (auto simp: step_def go_step_def)
  next
    case False
    obtain p pc ok where g: "pool st ! i = (p, pc, ok)" by (cases "pool st ! i")
    show ?thesis
    proof (cases "pc = CallIsOpen")
      case True
      obtain b tr where io: "isOpen L (net st) (host (sc st)) p = (b, tr)"
        by (cases "isOpen L (net st) (host (sc st)) p")
      then have "\<exists>tr'. fst (isOpen L tr' (host (sc st)) p) = b"
        by (intro exI [of _ "net st"]) simp
      with S False Go g True io show ?thesis
        by (auto simp: step_def go_step_def sound_log_def)
    next
      case F2: False
      with False Go g have "probes (step L t st) = probes st"
        by (auto simp: step_def go_step_def split: gpc.splits sum.splits)
      with S show ?thesis by simp
    qed
  qed
qed

lemma sound_log_run: "sound_log L (probes st) \<Longrightarrow> sound_log L (probes (run L ts st))"
  by (induction ts arbitrary: st) (simp_all add: sound_log_step)

lemma probe_eq: "e = (probe_host e, probe_port e, probe_open e)"
  by (cases e) simp

lemma elems_portsToScan: "elems (portsToScan b) = [1..(if b then allPorts else wellKnownPorts) - 1]"
  by (simp only: portsToScan_eq elems_Some)

lemma newScanner_Inr:
  "newScanner P h all = Inr s \<Longrightarrow> s = \<lparr>Mutex = False, host = h, openPorts = None, scanAll = all\<rparr>"
  by (simp add: newScanner_def split: if_splits)

text \<open>
  C1. For a scanner fresh from \<^verbatim>\<open>newScanner\<close> with host \<open>h\<close> and flag \<open>all\<close>: \<^verbatim>\<open>scan\<close>
  returns under the scheduler above, and whenever it returns, under any schedule and
  any network, the returned list holds a port \<open>p\<close> exactly when a call
  \<^verbatim>\<open>isOpen(h, p)\<close> of this scan returned true; no port is in it twice; every port
  from 1 up to, not including, 1024 (65535 when \<open>all\<close> is set) was probed exactly
  once and no other port was probed; every probe was for host \<open>h\<close>, and every logged
  result is a result of \<^verbatim>\<open>isOpen\<close>.
\<close>

theorem scan_probes_each_port_once:
  assumes fresh: "newScanner P h all = Inr s"
  shows "(\<exists>r. mainpc (run L (auto_sched L (7 * len (portsToScan all) + 3) (scan ctx s tr))
                   (scan ctx s tr)) = Returned r)
     \<and> (\<forall>sched r. mainpc (run L sched (scan ctx s tr)) = Returned r \<longrightarrow>
          (\<forall>p. p \<in> set (elems r) \<longleftrightarrow> (h, p, True) \<in> set (probes (run L sched (scan ctx s tr))))
          \<and> distinct (elems r)
          \<and> (\<forall>p. count_list (map probe_port (probes (run L sched (scan ctx s tr)))) p
                 = (if 1 \<le> p \<and> p < (if all then allPorts else wellKnownPorts) then 1 else 0))
          \<and> list_all (\<lambda>e. probe_host e = h) (probes (run L sched (scan ctx s tr)))
          \<and> sound_log L (probes (run L sched (scan ctx s tr))))"
proof -
  define ports where "ports = elems (portsToScan all)"
  define st0 :: "'b state" where "st0 = scan ctx s tr"
  from fresh have s: "s = \<lparr>Mutex = False, host = h, openPorts = None, scanAll = all\<rparr>"
    by (rule newScanner_Inr)
  have st0: "st0 = scan_range ports s tr"
    by (simp add: st0_def scan_def ports_def s)
  have I0: "scan_inv ports s st0"
    unfolding st0 by (rule inv_scan_range) (simp add: s)
  have d: "distinct ports"
    by (simp only: ports_def elems_portsToScan distinct_upto)
  have sp: "set ports = {p. 1 \<le> p \<and> p < (if all then allPorts else wellKnownPorts)}"
    by (simp only: ports_def elems_portsToScan set_upto) auto
  have "steps_left st0 \<le> 7 * len (portsToScan all) + 3"
    by (simp add: st0 steps_left_scan_range len_def ports_def)
  from auto_sched_returns [OF I0 this]
  have ex: "\<exists>r. mainpc (run L (auto_sched L (7 * len (portsToScan all) + 3) st0) st0) = Returned r" .
  have all: "(\<forall>p. p \<in> set (elems r) \<longleftrightarrow> (h, p, True) \<in> set (probes (run L sched st0)))
          \<and> distinct (elems r)
          \<and> (\<forall>p. count_list (map probe_port (probes (run L sched st0))) p
                 = (if 1 \<le> p \<and> p < (if all then allPorts else wellKnownPorts) then 1 else 0))
          \<and> list_all (\<lambda>e. probe_host e = h) (probes (run L sched st0))
          \<and> sound_log L (probes (run L sched st0))"
    if R: "mainpc (run L sched st0) = Returned r" for sched r
  proof -
    define lg where "lg = probes (run L sched st0)"
    have I: "scan_inv ports s (run L sched st0)"
      using I0 by (rule inv_run)
    note F = returned_facts [OF I R, folded lg_def]
    have m1: "mset (elems r) = mset (map probe_port (filter probe_open lg))"
      using F(1) by (simp add: s elems_def)
    have m2: "mset (map probe_port lg) = mset ports"
      using F(2) .
    have hs: "list_all (\<lambda>e. probe_host e = h) lg"
      using F(3) by (simp add: s)
    have mem: "p \<in> set (elems r) \<longleftrightarrow> (h, p, True) \<in> set lg" for p
    proof -
      have "p \<in> set (elems r) \<longleftrightarrow> p \<in> set (map probe_port (filter probe_open lg))"
        using m1 by (metis mset_eq_setD)
      also have "\<dots> \<longleftrightarrow> (\<exists>e \<in> set lg. probe_open e \<and> probe_port e = p)"
        by auto
      also have "\<dots> \<longleftrightarrow> (h, p, True) \<in> set lg"
      proof
        assume "\<exists>e \<in> set lg. probe_open e \<and> probe_port e = p"
        then obtain e where e: "e \<in> set lg" "probe_open e" "probe_port e = p" by blast
        with hs have "probe_host e = h" by (simp add: list_all_iff)
        with e probe_eq [of e] show "(h, p, True) \<in> set lg" by simp
      next
        assume "(h, p, True) \<in> set lg"
        then show "\<exists>e \<in> set lg. probe_open e \<and> probe_port e = p"
          by (intro bexI [of _ "(h, p, True)"]) simp_all
      qed
      finally show ?thesis .
    qed
    have dl: "distinct (map probe_port lg)"
      using m2 d by (metis mset_eq_imp_distinct_iff)
    then have "distinct (map probe_port (filter probe_open lg))"
      by (rule distinct_map_filter)
    with m1 have dr: "distinct (elems r)"
      by (metis mset_eq_imp_distinct_iff)
    have cnt: "count_list (map probe_port lg) p
        = (if 1 \<le> p \<and> p < (if all then allPorts else wellKnownPorts) then 1 else 0)" for p
    proof -
      have "count_list (map probe_port lg) p = count (mset (map probe_port lg)) p"
        by (simp only: count_mset)
      also have "\<dots> = count (mset ports) p"
        by (simp only: m2)
      also have "\<dots> = (if p \<in> set ports then 1 else 0)"
        using d by (simp add: distinct_count_atmost_1)
      finally show ?thesis
        by (simp add: sp)
    qed
    have "sound_log L (probes st0)"
      by (simp add: st0 scan_range_def sound_log_def)
    then have "sound_log L lg"
      unfolding lg_def by (rule sound_log_run)
    with mem dr cnt hs show ?thesis
      unfolding lg_def by blast
  qed
  from ex all show ?thesis
    unfolding st0_def by blast
qed

lemma distinct_singleton_set: "distinct xs \<Longrightarrow> set xs = {a} \<Longrightarrow> xs = [a]"
proof (cases xs)
  case Nil
  assume "set xs = {a}"
  with Nil show ?thesis by simp
next
  case (Cons x ys)
  assume d: "distinct xs" and s: "set xs = {a}"
  from s Cons have x: "x = a" by auto
  from s Cons have "set ys \<subseteq> {a}" by auto
  moreover from d Cons x have "a \<notin> set ys" by simp
  ultimately have "ys = []" by (cases ys) auto
  with Cons x show ?thesis by simp
qed

theorem scan_probes_each_port_once_witness:
  "\<exists>r. mainpc (run \<lparr>JoinHostPort = (\<lambda>h p. h @ '':'' @ p),
                      Itoa = (\<lambda>i. if i = 80 then ''80'' else ''other''),
                      Dial = (\<lambda>tr n a t. if a = ''127.0.0.1:80'' then Inr (7::nat) else Inl ''refused'')\<rparr>
          (auto_sched \<lparr>JoinHostPort = (\<lambda>h p. h @ '':'' @ p),
                      Itoa = (\<lambda>i. if i = 80 then ''80'' else ''other''),
                      Dial = (\<lambda>tr n a t. if a = ''127.0.0.1:80'' then Inr (7::nat) else Inl ''refused'')\<rparr>
             (7 * len (portsToScan False) + 3)
             (scan (WithCancel Background False)
                \<lparr>Mutex = False, host = ''127.0.0.1'', openPorts = None, scanAll = False\<rparr> []))
          (scan (WithCancel Background False)
                \<lparr>Mutex = False, host = ''127.0.0.1'', openPorts = None, scanAll = False\<rparr> []))
        = Returned r
      \<and> r = Some [80]"
proof -
  define L :: "(string, nat) stdlib" where "L = \<lparr>JoinHostPort = (\<lambda>h p. h @ '':'' @ p),
                      Itoa = (\<lambda>i. if i = 80 then ''80'' else ''other''),
                      Dial = (\<lambda>tr n a t. if a = ''127.0.0.1:80'' then Inr (7::nat) else Inl ''refused'')\<rparr>"
  define s where "s = \<lparr>Mutex = False, host = ''127.0.0.1'', openPorts = None, scanAll = False\<rparr>"
  define st0 :: "nat state" where "st0 = scan (WithCancel Background False) s []"
  define fin where "fin = run L (auto_sched L (7 * len (portsToScan False) + 3) st0) st0"
  have fresh: "newScanner (\<lambda>x. if x = ''127.0.0.1'' then Some () else None) ''127.0.0.1'' False = Inr s"
    by (simp add: newScanner_def s_def)
  note T = scan_probes_each_port_once [OF fresh, of L "WithCancel Background False" "[]",
      folded st0_def]
  from T [THEN conjunct1] obtain r where R: "mainpc fin = Returned r"
    unfolding fin_def ..
  note F = T [THEN conjunct2, rule_format, OF R [unfolded fin_def], folded fin_def]
  have mem: "p \<in> set (elems r) \<longleftrightarrow> (''127.0.0.1'', p, True) \<in> set (probes fin)" for p
    using F [THEN conjunct1] by (rule spec)
  have d: "distinct (elems r)"
    using F [THEN conjunct2, THEN conjunct1] .
  have cnt: "count_list (map probe_port (probes fin)) p
                 = (if 1 \<le> p \<and> p < (if False then allPorts else wellKnownPorts) then 1 else 0)" for p
    using F [THEN conjunct2, THEN conjunct2, THEN conjunct1] by (rule spec)
  have hs: "list_all (\<lambda>e. probe_host e = ''127.0.0.1'') (probes fin)"
    using F [THEN conjunct2, THEN conjunct2, THEN conjunct2, THEN conjunct1] .
  have sl: "sound_log L (probes fin)"
    using F [THEN conjunct2, THEN conjunct2, THEN conjunct2, THEN conjunct2] .
  have io: "fst (isOpen L tr' ''127.0.0.1'' p) = (p = 80)" for tr' p
    by (simp add: isOpen_def L_def)
  have op: "probe_open e = (probe_port e = 80)" if "e \<in> set (probes fin)" for e
  proof -
    from hs that have "probe_host e = ''127.0.0.1''" by (simp add: list_all_iff)
    moreover from sl that obtain tr' where "fst (isOpen L tr' (probe_host e) (probe_port e)) = probe_open e"
      unfolding sound_log_def by blast
    ultimately show ?thesis using io by simp
  qed
  have "count_list (map probe_port (probes fin)) 80 = 1"
    by (simp add: cnt wellKnownPorts_def)
  then have "80 \<in> set (map probe_port (probes fin))"
    by (metis count_list_0_iff zero_neq_one)
  then obtain e where e: "e \<in> set (probes fin)" "probe_port e = 80"
    by auto
  with op [of e] hs probe_eq [of e] have "(''127.0.0.1'', 80, True) \<in> set (probes fin)"
    by (simp add: list_all_iff)
  then have a: "80 \<in> set (elems r)"
    by (simp add: mem)
  have b: "p = 80" if "p \<in> set (elems r)" for p
  proof -
    from that have "(''127.0.0.1'', p, True) \<in> set (probes fin)" by (simp add: mem)
    from op [OF this] show ?thesis by simp
  qed
  have "set (elems r) = {80}"
  proof (intro equalityI subsetI)
    fix x assume "x \<in> set (elems r)"
    then have "x = 80" by (rule b)
    then show "x \<in> {80}" by simp
  next
    fix x :: int assume "x \<in> {80}"
    then have "x = 80" by simp
    with a show "x \<in> set (elems r)" by simp
  qed
  with d have "elems r = [80]"
    by (rule distinct_singleton_set)
  then have "r = Some [80]"
    by (cases r) (simp_all add: elems_def)
  with R have "mainpc fin = Returned r \<and> r = Some [80]"
    by simp
  then have "\<exists>r. mainpc fin = Returned r \<and> r = Some [80]" ..
  then show ?thesis
    unfolding fin_def st0_def s_def L_def .
qed

section \<open>The context argument\<close>

text \<open>
  C7. The context handed to \<^verbatim>\<open>scan\<close> has no effect: for any two contexts, one of
  them cancelled and the other not in particular, the scan starts in the same state
  and, schedule and network being the same, probes the same ports and returns the
  same list.
\<close>

theorem scan_ignores_context:
  "scan ctx1 s tr = scan ctx2 s tr
   \<and> run L sched (scan ctx1 s tr) = run L sched (scan ctx2 s tr)
   \<and> probes (run L sched (scan (WithCancel Background True) s tr))
       = probes (run L sched (scan (WithCancel Background False) s tr))
   \<and> mainpc (run L sched (scan (WithCancel Background True) s tr))
       = mainpc (run L sched (scan (WithCancel Background False) s tr))"
  by (simp add: scan_def)

section \<open>The range of a scan\<close>

text \<open>
  \<^verbatim>\<open>scan\<close> takes no list of ports: it ranges over \<^verbatim>\<open>portsToScan(s.scanAll)\<close>, which
  is never nil and never empty, so every scan starts with at least one port to come.
\<close>

lemma portsToScan_never_empty: "portsToScan b \<noteq> None \<and> elems (portsToScan b) \<noteq> []"
proof -
  have "1 \<le> (if b then allPorts else wellKnownPorts) - 1"
    by (simp add: allPorts_def wellKnownPorts_def)
  then have "[1..(if b then allPorts else wellKnownPorts) - 1]
      = 1 # [1 + 1..(if b then allPorts else wellKnownPorts) - 1]"
    by (rule upto_rec1)
  then have "elems (portsToScan b) \<noteq> []"
    by (simp only: elems_portsToScan) simp
  moreover have "portsToScan b \<noteq> None"
    by (simp only: portsToScan_eq) simp
  ultimately show ?thesis by simp
qed

lemma scan_range_never_empty: "\<exists>p ps. mainpc (scan ctx s tr) = Ranging (p # ps)"
proof -
  from portsToScan_never_empty [of "scanAll s"]
  obtain p ps where "elems (portsToScan (scanAll s)) = p # ps"
    by (cases "elems (portsToScan (scanAll s))") auto
  then show ?thesis
    by (simp add: scan_def scan_range_def)
qed

end
